theory Spec2Isabelle
  imports Main
begin

section \<open>The SSE client registry of extensions/sse/client.go\<close>

text \<open>
  The registry keeps a map from client id to client in the struct \<open>Clients\<close>. One
  goroutine, \<open>listener\<close>, owns the map: it receives the requests of the methods from
  the channel \<open>events\<close>, one at a time, and answers on the channel each request brings.

  The embedding follows the source line by line.
  \<^item> A pointer that may be nil is an \<open>option\<close>: \<open>*Client\<close> is \<open>Client option\<close>,
    \<open>*eventResponse\<close> is \<open>eventResponse option\<close>, a channel field left unset is
    \<open>None\<close>. The fields of a \<open>Client\<close> are never written after \<open>New\<close> has built
    it, so a client stands for its pointer; two clients built by \<open>New\<close> differ in
    their message channel.
  \<^item> A channel is the identity \<open>make\<close> gave it and its capacity. The contents of the
    request channel are the list \<open>events\<close> of the state, oldest request first.
  \<^item> A panic, and a send or receive that can never complete, is a \<open>fault\<close>: every
    operation returns \<open>fault + result\<close>.
  \<^item> What the owner does beyond writing its map (a call of \<open>Ctx.Done()\<close>, a send on a
    response channel) is appended to the \<open>trace\<close> of the state, in the order done.
  \<^item> The interface values \<open>context.Context\<close> and \<open>http.ResponseWriter\<close> come from the
    HTTP layer and are opaque here. A \<open>Context\<close> is a context in the sense of package
    \<open>context\<close>, which rules out passing nil: the call \<open>cli.Ctx.Done()\<close> of the owner
    has a receiver.
  \<^item> A registry is the one \<open>NewClientManager\<close> makes, so its map and its request
    channel are not nil. Exhaustion of memory is not modelled.
  \<^item> The methods are those of one caller at a time; the owner runs beside it. Where a
    method reads the map without asking the owner (\<open>len(cs.clients)\<close> in \<open>New\<close>), how
    far the owner has got by then is a parameter of the method.
\<close>

subsection \<open>Data\<close>

datatype Context = Context nat

datatype ResponseWriter = Writer nat

record chan =
  chan_id :: nat
  chan_cap :: nat

record Client =
  ID :: string
  Msg :: chan
  ResponseWriter :: ResponseWriter
  Ctx :: Context

datatype eventType =
  eTypeNewClient
  | eTypeClientList
  | eTypeRemoveClient
  | eTypeActiveClientCount
  | eTypeClient

record event =
  ev_Type :: eventType
  ev_ClientID :: string
  ev_Client :: "Client option"
  ev_Response :: "chan option"

record eventResponse =
  resp_Clients :: "Client option list"
  resp_RemainingClients :: int
  resp_Client :: "Client option"

text \<open>
  The struct \<open>Clients\<close> has the fields \<open>clients\<close>, \<open>MsgBuffer\<close> and \<open>events\<close>. The
  channel \<open>events\<close> is its capacity \<open>events_cap\<close> and its contents \<open>events\<close>: the
  requests sent and not yet processed by the owner. \<open>nchan\<close> counts the channels the
  methods have made, and is the identity of the next one. \<open>trace\<close> is the log of the
  owner's actions.
\<close>

datatype action =
  Done Context
  | Send chan "eventResponse option"

record Clients =
  clients :: "string \<rightharpoonup> Client"
  MsgBuffer :: int
  events :: "event list"
  events_cap :: nat
  nchan :: nat
  trace :: "action list"

datatype fault =
  NilDereference
  | MakechanSize
  | BlockedForever

subsection \<open>The owner: \<open>listener\<close>\<close>

text \<open>
  \<open>for clientID := range cs.clients\<close> visits every key of the map once, in an order the
  runtime chooses. The choice is the parameter \<open>ord\<close> of the model: \<open>ord m\<close> is the order
  in which the keys of \<open>m\<close> are visited, and \<open>range_ok ord m\<close> says that it is an
  enumeration of the keys of \<open>m\<close>.
\<close>

type_synonym range_order = "(string \<rightharpoonup> Client) \<Rightarrow> string list"

definition range_ok :: "range_order \<Rightarrow> (string \<rightharpoonup> Client) \<Rightarrow> bool" where
  "range_ok ord m = (distinct (ord m) \<and> set (ord m) = dom m)"

text \<open>
  One iteration of the loop of \<open>listener\<close>: the request \<open>ev\<close> on the map \<open>m\<close> gives the
  new map and the actions of the iteration. A request type with no case in the
  \<open>switch\<close> does nothing. A send on a nil channel blocks forever.
\<close>

definition listener_step ::
  "range_order \<Rightarrow> event \<Rightarrow> (string \<rightharpoonup> Client) \<Rightarrow> fault + ((string \<rightharpoonup> Client) \<times> action list)" where
  "listener_step ord ev m =
     (case ev_Type ev of
        eTypeNewClient \<Rightarrow>
          (case ev_Client ev of
             None \<Rightarrow> Inl NilDereference
           | Some c \<Rightarrow> Inr (m(ID c \<mapsto> c), []))
      | eTypeClientList \<Rightarrow>
          (let copied = map m (ord m) in
           case ev_Response ev of
             None \<Rightarrow> Inl BlockedForever
           | Some rch \<Rightarrow>
               Inr (m, [Send rch (Some \<lparr>resp_Clients = copied, resp_RemainingClients = 0,
                                        resp_Client = None\<rparr>)]))
      | eTypeRemoveClient \<Rightarrow>
          (case m (ev_ClientID ev) of
             None \<Rightarrow>
               (case ev_Response ev of
                  None \<Rightarrow> Inl BlockedForever
                | Some rch \<Rightarrow> Inr (m, [Send rch None]))
           | Some cli \<Rightarrow>
               (case ev_Response ev of
                  None \<Rightarrow> Inl BlockedForever
                | Some rch \<Rightarrow> Inr (m(ev_ClientID ev := None), [Done (Ctx cli), Send rch None])))
      | eTypeActiveClientCount \<Rightarrow> Inr (m, [])
      | eTypeClient \<Rightarrow>
          (case ev_Response ev of
             None \<Rightarrow> Inl BlockedForever
           | Some rch \<Rightarrow>
               Inr (m, [Send rch (Some \<lparr>resp_Clients = [], resp_RemainingClients = 0,
                                        resp_Client = m (ev_ClientID ev)\<rparr>)])))"

text \<open>
  The loop on a finite run of requests, oldest first. The source's loop never ends: it
  waits for the next request when the channel is empty.
\<close>

fun listener ::
  "range_order \<Rightarrow> event list \<Rightarrow> (string \<rightharpoonup> Client) \<Rightarrow> fault + ((string \<rightharpoonup> Client) \<times> action list)" where
  "listener ord [] m = Inr (m, [])"
| "listener ord (ev # evs) m =
     (case listener_step ord ev m of
        Inl f \<Rightarrow> Inl f
      | Inr (m1, a1) \<Rightarrow>
          (case listener ord evs m1 of
             Inl f \<Rightarrow> Inl f
           | Inr (m2, a2) \<Rightarrow> Inr (m2, a1 @ a2)))"

text \<open>The owner goroutine processes the \<open>k\<close> oldest pending requests.\<close>

definition owner :: "range_order \<Rightarrow> nat \<Rightarrow> Clients \<Rightarrow> fault + Clients" where
  "owner ord k cs =
     (case listener ord (take k (events cs)) (clients cs) of
        Inl f \<Rightarrow> Inl f
      | Inr (m, acts) \<Rightarrow>
          Inr (cs\<lparr>clients := m, events := drop k (events cs), trace := trace cs @ acts\<rparr>))"

subsection \<open>Channels\<close>

text \<open>\<open>make(chan T, n)\<close> for \<open>0 \<le> n\<close>: a channel nobody else holds.\<close>

definition make_chan :: "nat \<Rightarrow> Clients \<Rightarrow> chan \<times> Clients" where
  "make_chan n cs = (\<lparr>chan_id = nchan cs, chan_cap = n\<rparr>, cs\<lparr>nchan := Suc (nchan cs)\<rparr>)"

text \<open>
  \<open>cs.events <- ev\<close>: the request joins the pending ones. A sender that finds the buffer
  full waits until the owner has taken a request; the owner always gets to the next
  request, so the send completes, and its place in the order is the same.
\<close>

definition send :: "event \<Rightarrow> Clients \<Rightarrow> Clients" where
  "send ev cs = cs\<lparr>events := events cs @ [ev]\<rparr>"

text \<open>The first value sent on \<open>rch\<close> in a list of actions.\<close>

fun sent_on :: "chan \<Rightarrow> action list \<Rightarrow> eventResponse option option" where
  "sent_on rch [] = None"
| "sent_on rch (Done c # as) = sent_on rch as"
| "sent_on rch (Send r x # as) = (if r = rch then Some x else sent_on rch as)"

text \<open>
  \<open><-rch\<close>: the caller waits while the owner works through the pending requests, until
  an iteration sends on \<open>rch\<close>. The send is the last statement of its iteration. With no
  request left and nothing sent, the caller waits forever.
\<close>

fun await ::
  "range_order \<Rightarrow> chan \<Rightarrow> event list \<Rightarrow> (string \<rightharpoonup> Client) \<Rightarrow>
     fault + (eventResponse option \<times> (string \<rightharpoonup> Client) \<times> event list \<times> action list)" where
  "await ord rch [] m = Inl BlockedForever"
| "await ord rch (ev # evs) m =
     (case listener_step ord ev m of
        Inl f \<Rightarrow> Inl f
      | Inr (m1, a1) \<Rightarrow>
          (case sent_on rch a1 of
             Some r \<Rightarrow> Inr (r, m1, evs, a1)
           | None \<Rightarrow>
               (case await ord rch evs m1 of
                  Inl f \<Rightarrow> Inl f
                | Inr (r, m2, rest, a2) \<Rightarrow> Inr (r, m2, rest, a1 @ a2))))"

definition recv :: "range_order \<Rightarrow> chan \<Rightarrow> Clients \<Rightarrow> fault + (eventResponse option \<times> Clients)" where
  "recv ord rch cs =
     (case await ord rch (events cs) (clients cs) of
        Inl f \<Rightarrow> Inl f
      | Inr (r, m, rest, acts) \<Rightarrow>
          Inr (r, cs\<lparr>clients := m, events := rest, trace := trace cs @ acts\<rparr>))"

subsection \<open>The methods\<close>

text \<open>\<open>len(cs.clients)\<close>, read by \<open>Active\<close>, \<open>New\<close> and \<open>Remove\<close> without asking the owner.\<close>

definition len :: "(string \<rightharpoonup> Client) \<Rightarrow> int" where
  "len m = int (card (dom m))"

definition Active :: "Clients \<Rightarrow> int" where
  "Active cs = len (clients cs)"

text \<open>
  \<open>New\<close> sends its request and reads \<open>len(cs.clients)\<close> without waiting for the owner,
  which runs meanwhile: \<open>k\<close> is the number of pending requests the owner processes
  between the send and the read. \<open>make\<close> panics on a negative size.
\<close>

definition New ::
  "range_order \<Rightarrow> nat \<Rightarrow> Context \<Rightarrow> ResponseWriter \<Rightarrow> string \<Rightarrow> Clients \<Rightarrow>
     fault + ((Client \<times> int) \<times> Clients)" where
  "New ord k ctx w clientID cs =
     (if MsgBuffer cs < 0 then Inl MakechanSize
      else
        (case make_chan (nat (MsgBuffer cs)) cs of
           (mchan, cs1) \<Rightarrow>
             (let cli = \<lparr>ID = clientID, Msg = mchan, ResponseWriter = w, Ctx = ctx\<rparr>;
                  cs2 = send \<lparr>ev_Type = eTypeNewClient, ev_ClientID = [],
                              ev_Client = Some cli, ev_Response = None\<rparr> cs1
              in (case owner ord k cs2 of
                    Inl f \<Rightarrow> Inl f
                  | Inr cs3 \<Rightarrow> Inr ((cli, len (clients cs3)), cs3)))))"

text \<open>
  \<open>Range\<close> runs the visitor \<open>f\<close> in the caller, on the caller's state \<open>s\<close>, once for
  every index of the slice it received. The state \<open>s\<close> is whatever the visitor works
  on; the registry is not part of it.
\<close>

definition Range ::
  "range_order \<Rightarrow> (Client option \<Rightarrow> 's \<Rightarrow> 's) \<Rightarrow> Clients \<Rightarrow> 's \<Rightarrow> fault + ('s \<times> Clients)" where
  "Range ord f cs s =
     (case make_chan 0 cs of
        (rch, cs1) \<Rightarrow>
          (case recv ord rch
                  (send \<lparr>ev_Type = eTypeClientList, ev_ClientID = [],
                         ev_Client = None, ev_Response = Some rch\<rparr> cs1) of
             Inl e \<Rightarrow> Inl e
           | Inr (None, cs2) \<Rightarrow> Inl NilDereference
           | Inr (Some response, cs2) \<Rightarrow>
               Inr (fold (\<lambda>i. f (resp_Clients response ! i))
                         [0..<length (resp_Clients response)] s, cs2)))"

definition Remove :: "range_order \<Rightarrow> string \<Rightarrow> Clients \<Rightarrow> fault + (int \<times> Clients)" where
  "Remove ord clientID cs =
     (case make_chan 0 cs of
        (rch, cs1) \<Rightarrow>
          (case recv ord rch
                  (send \<lparr>ev_Type = eTypeRemoveClient, ev_ClientID = clientID,
                         ev_Client = None, ev_Response = Some rch\<rparr> cs1) of
             Inl e \<Rightarrow> Inl e
           | Inr (response, cs2) \<Rightarrow> Inr (len (clients cs2), cs2)))"

definition Clients ::
  "range_order \<Rightarrow> Clients \<Rightarrow> fault + (Client option list \<times> Clients)" where
  "Clients ord cs =
     (case make_chan 0 cs of
        (rch, cs1) \<Rightarrow>
          (case recv ord rch
                  (send \<lparr>ev_Type = eTypeClientList, ev_ClientID = [],
                         ev_Client = None, ev_Response = Some rch\<rparr> cs1) of
             Inl e \<Rightarrow> Inl e
           | Inr (None, cs2) \<Rightarrow> Inl NilDereference
           | Inr (Some response, cs2) \<Rightarrow> Inr (resp_Clients response, cs2)))"

definition Client ::
  "range_order \<Rightarrow> string \<Rightarrow> Clients \<Rightarrow> fault + (Client option \<times> Clients)" where
  "Client ord clientID cs =
     (case make_chan 0 cs of
        (rch, cs1) \<Rightarrow>
          (case recv ord rch
                  (send \<lparr>ev_Type = eTypeClientList, ev_ClientID = [],
                         ev_Client = None, ev_Response = Some rch\<rparr> cs1) of
             Inl e \<Rightarrow> Inl e
           | Inr (None, cs2) \<Rightarrow> Inl NilDereference
           | Inr (Some cli, cs2) \<Rightarrow> Inr (resp_Client cli, cs2)))"

definition NewClientManager :: Clients where
  "NewClientManager =
     \<lparr>clients = Map.empty, MsgBuffer = 10, events = [], events_cap = 10, nchan = 0, trace = []\<rparr>"

subsection \<open>Well-formed states\<close>

text \<open>
  The requests the methods send are well formed: an insert carries its client, a request
  that is answered carries its response channel, and every channel was made before
  (its identity is below \<open>n\<close>, the identity of the next channel).
\<close>

definition wf_event :: "nat \<Rightarrow> event \<Rightarrow> bool" where
  "wf_event n ev =
     ((case ev_Type ev of
         eTypeNewClient \<Rightarrow> (case ev_Client ev of None \<Rightarrow> False | Some c \<Rightarrow> chan_id (Msg c) < n)
       | eTypeActiveClientCount \<Rightarrow> True
       | _ \<Rightarrow> ev_Response ev \<noteq> None) \<and>
      (case ev_Response ev of None \<Rightarrow> True | Some r \<Rightarrow> chan_id r < n))"

text \<open>
  The map of the owner is finite, files every client under its own id, and holds
  clients whose message channel was made before.
\<close>

definition wf_map :: "nat \<Rightarrow> (string \<rightharpoonup> Client) \<Rightarrow> bool" where
  "wf_map n m =
     (finite (dom m) \<and> (\<forall>k c. m k = Some c \<longrightarrow> ID c = k \<and> chan_id (Msg c) < n))"

definition wf_Clients :: "Clients \<Rightarrow> bool" where
  "wf_Clients cs =
     (list_all (wf_event (nchan cs)) (events cs) \<and> wf_map (nchan cs) (clients cs))"

text \<open>
  The states of a registry made by \<open>NewClientManager\<close> and used through its methods,
  with the owner running in between. \<open>Active\<close> only reads, and \<open>Range\<close> leaves the
  registry in the state \<open>Clients\<close> leaves it in.
\<close>

inductive reachable :: "Clients \<Rightarrow> bool" where
  reachable_init: "reachable NewClientManager"
| reachable_owner: "reachable cs \<Longrightarrow> owner ord k cs = Inr cs' \<Longrightarrow> reachable cs'"
| reachable_New: "reachable cs \<Longrightarrow> New ord k ctx w i cs = Inr (r, cs') \<Longrightarrow> reachable cs'"
| reachable_Remove: "reachable cs \<Longrightarrow> Remove ord i cs = Inr (n, cs') \<Longrightarrow> reachable cs'"
| reachable_Clients: "reachable cs \<Longrightarrow> Clients ord cs = Inr (snap, cs') \<Longrightarrow> reachable cs'"
| reachable_Client: "reachable cs \<Longrightarrow> Client ord i cs = Inr (c, cs') \<Longrightarrow> reachable cs'"

subsection \<open>The registry as the specification words it\<close>

text \<open>
  The specification speaks of add and remove requests applied one at a time, in the
  order of their arrival, to the live map; and of the set of ids added minus the ids
  removed.
\<close>

datatype request = AddReq Client | RemoveReq string

fun apply_request :: "request \<Rightarrow> (string \<rightharpoonup> Client) \<Rightarrow> (string \<rightharpoonup> Client)" where
  "apply_request (AddReq c) live = live(ID c \<mapsto> c)"
| "apply_request (RemoveReq i) live = live(i := None)"

fun apply_id :: "request \<Rightarrow> string set \<Rightarrow> string set" where
  "apply_id (AddReq c) ids = insert (ID c) ids"
| "apply_id (RemoveReq i) ids = ids - {i}"

text \<open>The mutation an event of the owner's queue asks for, if any.\<close>

definition request_of :: "event \<Rightarrow> request option" where
  "request_of ev =
     (case ev_Type ev of
        eTypeNewClient \<Rightarrow> map_option AddReq (ev_Client ev)
      | eTypeRemoveClient \<Rightarrow> Some (RemoveReq (ev_ClientID ev))
      | _ \<Rightarrow> None)"

fun requests_of :: "event list \<Rightarrow> request list" where
  "requests_of [] = []"
| "requests_of (ev # evs) =
     (case request_of ev of
        None \<Rightarrow> requests_of evs
      | Some r \<Rightarrow> r # requests_of evs)"

text \<open>\<open>Range\<close> as the specification words it: the snapshot of \<open>Clients\<close>, then the visits.\<close>

definition Range_spec ::
  "range_order \<Rightarrow> (Client option \<Rightarrow> 's \<Rightarrow> 's) \<Rightarrow> Clients \<Rightarrow> 's \<Rightarrow> fault + ('s \<times> Clients)" where
  "Range_spec ord f cs s =
     (case Clients ord cs of
        Inl e \<Rightarrow> Inl e
      | Inr (snapshot, cs') \<Rightarrow> Inr (fold f snapshot s, cs'))"

subsection \<open>Example states\<close>

text \<open>
  A client \<open>a\<close>; the request that inserts it; the registry with \<open>a\<close> live and nothing
  pending, which is \<open>NewClientManager\<close> after \<open>New\<close> when the owner has processed the
  insert; the registry with the insert of \<open>a\<close> still pending; a second client with the id
  of \<open>a\<close>; a run of three requests; and an order of iteration for maps whose keys are
  among \<open>a\<close> and \<open>b\<close>.
\<close>

definition client_a :: Client where
  "client_a = \<lparr>ID = ''a'', Msg = \<lparr>chan_id = 0, chan_cap = 10\<rparr>,
                ResponseWriter = Writer 0, Ctx = Context 0\<rparr>"

definition client_a2 :: Client where
  "client_a2 = \<lparr>ID = ''a'', Msg = \<lparr>chan_id = 1, chan_cap = 10\<rparr>,
                 ResponseWriter = Writer 1, Ctx = Context 1\<rparr>"

definition insert_a :: event where
  "insert_a = \<lparr>ev_Type = eTypeNewClient, ev_ClientID = [], ev_Client = Some client_a,
                ev_Response = None\<rparr>"

definition registry_a :: Clients where
  "registry_a =
     \<lparr>clients = [''a'' \<mapsto> client_a], MsgBuffer = 10, events = [], events_cap = 10,
      nchan = 1, trace = []\<rparr>"

definition registry_pending_a :: Clients where
  "registry_pending_a =
     \<lparr>clients = Map.empty, MsgBuffer = 10, events = [insert_a], events_cap = 10,
      nchan = 1, trace = []\<rparr>"

definition events_example :: "event list" where
  "events_example =
     [insert_a,
      \<lparr>ev_Type = eTypeClientList, ev_ClientID = [], ev_Client = None,
       ev_Response = Some \<lparr>chan_id = 1, chan_cap = 0\<rparr>\<rparr>,
      \<lparr>ev_Type = eTypeRemoveClient, ev_ClientID = ''a'', ev_Client = None,
       ev_Response = Some \<lparr>chan_id = 2, chan_cap = 0\<rparr>\<rparr>]"

definition order_ab :: range_order where
  "order_ab m = filter (\<lambda>k. m k \<noteq> None) [''a'', ''b'']"

section \<open>Properties of the owner and of the wait for a response\<close>

lemma listener_step_silent:
  "listener_step ord ev m = Inr (m', a) \<Longrightarrow> ev_Response ev \<noteq> Some rch \<Longrightarrow> sent_on rch a = None"
  by (auto simp: listener_step_def Let_def split: eventType.splits option.splits)

lemma listener_append:
  "listener ord (xs @ ys) m =
     (case listener ord xs m of
        Inl f \<Rightarrow> Inl f
      | Inr (m1, a1) \<Rightarrow>
          (case listener ord ys m1 of
             Inl f \<Rightarrow> Inl f
           | Inr (m2, a2) \<Rightarrow> Inr (m2, a1 @ a2)))"
  by (induction xs arbitrary: m) (auto split: sum.splits)

lemma await_last:
  "listener ord evs m = Inr (live, a1) \<Longrightarrow>
   \<forall>e \<in> set evs. ev_Response e \<noteq> Some rch \<Longrightarrow>
   listener_step ord ev live = Inr (m', a2) \<Longrightarrow>
   sent_on rch a2 = Some r \<Longrightarrow>
   await ord rch (evs @ [ev]) m = Inr (r, m', [], a1 @ a2)"
proof (induction evs arbitrary: m a1)
  case Nil
  then show ?case by simp
next
  case (Cons e evs)
  from Cons.prems(1) obtain m1 b1 b2 where
    s: "listener_step ord e m = Inr (m1, b1)" and
    l: "listener ord evs m1 = Inr (live, b2)" and
    a: "a1 = b1 @ b2"
    by (auto split: sum.splits)
  from Cons.prems(2) have "ev_Response e \<noteq> Some rch" by simp
  with s have n: "sent_on rch b1 = None" by (rule listener_step_silent)
  from Cons.prems(2) have "\<forall>e \<in> set evs. ev_Response e \<noteq> Some rch" by simp
  from Cons.IH [OF l this Cons.prems(3) Cons.prems(4)]
  show ?case using s n a by simp
qed

lemma listener_step_total:
  "wf_event n ev \<Longrightarrow> \<exists>m' a. listener_step ord ev m = Inr (m', a)"
  by (auto simp: wf_event_def listener_step_def Let_def split: eventType.splits option.splits)

lemma listener_step_wf_map:
  "listener_step ord ev m = Inr (m', a) \<Longrightarrow> wf_event n ev \<Longrightarrow> wf_map n m \<Longrightarrow> wf_map n m'"
  by (auto simp: wf_event_def wf_map_def listener_step_def Let_def
      split: eventType.splits option.splits if_splits)

lemma listener_total:
  "list_all (wf_event n) evs \<Longrightarrow> \<exists>m' a. listener ord evs m = Inr (m', a)"
proof (induction evs arbitrary: m)
  case Nil
  then show ?case by simp
next
  case (Cons e evs)
  then obtain m1 b1 where s: "listener_step ord e m = Inr (m1, b1)"
    using listener_step_total [of n e ord m] by auto
  from Cons obtain m2 b2 where "listener ord evs m1 = Inr (m2, b2)" by fastforce
  with s show ?case by simp
qed

lemma listener_wf_map:
  "listener ord evs m = Inr (m', a) \<Longrightarrow> list_all (wf_event n) evs \<Longrightarrow> wf_map n m \<Longrightarrow> wf_map n m'"
proof (induction evs arbitrary: m a)
  case Nil
  then show ?case by simp
next
  case (Cons e evs)
  from Cons.prems(1) obtain m1 b1 b2 where
    s: "listener_step ord e m = Inr (m1, b1)" and
    l: "listener ord evs m1 = Inr (m', b2)"
    by (auto split: sum.splits)
  from Cons.prems have "wf_map n m1" using s listener_step_wf_map by auto
  with Cons.IH [OF l] Cons.prems show ?case by simp
qed

lemma wf_event_mono: "wf_event n ev \<Longrightarrow> n \<le> n' \<Longrightarrow> wf_event n' ev"
  by (auto simp: wf_event_def split: eventType.splits option.splits)

lemma wf_map_mono: "wf_map n m \<Longrightarrow> n \<le> n' \<Longrightarrow> wf_map n' m"
  by (fastforce simp: wf_map_def)

lemma wf_events_fresh:
  "list_all (wf_event n) evs \<Longrightarrow> \<forall>e \<in> set evs. ev_Response e \<noteq> Some \<lparr>chan_id = n, chan_cap = c\<rparr>"
  by (auto simp: list_all_iff wf_event_def split: option.splits)

lemma recv_fresh:
  assumes w: "wf_Clients cs"
    and l: "listener ord (events cs) (clients cs) = Inr (live, a1)"
    and s: "listener_step ord ev live = Inr (m', a2)"
    and r: "sent_on \<lparr>chan_id = nchan cs, chan_cap = 0\<rparr> a2 = Some r"
  shows "recv ord \<lparr>chan_id = nchan cs, chan_cap = 0\<rparr> (send ev (snd (make_chan 0 cs))) =
           Inr (r, cs\<lparr>clients := m', events := [], nchan := Suc (nchan cs),
                      trace := trace cs @ a1 @ a2\<rparr>)"
proof -
  from w have "list_all (wf_event (nchan cs)) (events cs)"
    by (simp add: wf_Clients_def)
  then have "\<forall>e \<in> set (events cs). ev_Response e \<noteq> Some \<lparr>chan_id = nchan cs, chan_cap = 0\<rparr>"
    by (rule wf_events_fresh)
  from await_last [OF l this s r]
  show ?thesis by (simp add: recv_def send_def make_chan_def)
qed

lemma Remove_result:
  assumes w: "wf_Clients cs"
    and l: "listener ord (events cs) (clients cs) = Inr (live, a1)"
  shows "Remove ord i cs =
           Inr (len (live(i := None)),
                cs\<lparr>clients := live(i := None), events := [], nchan := Suc (nchan cs),
                   trace := trace cs @ a1 @
                     (case live i of
                        None \<Rightarrow> [Send \<lparr>chan_id = nchan cs, chan_cap = 0\<rparr> None]
                      | Some c \<Rightarrow> [Done (Ctx c), Send \<lparr>chan_id = nchan cs, chan_cap = 0\<rparr> None])\<rparr>)"
proof -
  let ?rch = "\<lparr>chan_id = nchan cs, chan_cap = 0\<rparr>"
  let ?ev = "\<lparr>ev_Type = eTypeRemoveClient, ev_ClientID = i, ev_Client = None, ev_Response = Some ?rch\<rparr>"
  let ?a2 = "case live i of None \<Rightarrow> [Send ?rch None] | Some c \<Rightarrow> [Done (Ctx c), Send ?rch None]"
  have s: "listener_step ord ?ev live = Inr (live(i := None), ?a2)"
    by (auto simp: listener_step_def split: option.splits)
  have r: "sent_on ?rch ?a2 = Some None"
    by (simp split: option.splits)
  from recv_fresh [OF w l s r]
  show ?thesis by (simp add: Remove_def make_chan_def)
qed

lemma list_result:
  assumes w: "wf_Clients cs"
    and l: "listener ord (events cs) (clients cs) = Inr (live, a1)"
  shows "recv ord \<lparr>chan_id = nchan cs, chan_cap = 0\<rparr>
           (send \<lparr>ev_Type = eTypeClientList, ev_ClientID = [], ev_Client = None,
                  ev_Response = Some \<lparr>chan_id = nchan cs, chan_cap = 0\<rparr>\<rparr> (snd (make_chan 0 cs))) =
         Inr (Some \<lparr>resp_Clients = map live (ord live), resp_RemainingClients = 0, resp_Client = None\<rparr>,
              cs\<lparr>clients := live, events := [], nchan := Suc (nchan cs),
                 trace := trace cs @ a1 @
                   [Send \<lparr>chan_id = nchan cs, chan_cap = 0\<rparr>
                      (Some \<lparr>resp_Clients = map live (ord live), resp_RemainingClients = 0,
                             resp_Client = None\<rparr>)]\<rparr>)"
proof -
  let ?rch = "\<lparr>chan_id = nchan cs, chan_cap = 0\<rparr>"
  let ?ev = "\<lparr>ev_Type = eTypeClientList, ev_ClientID = [], ev_Client = None, ev_Response = Some ?rch\<rparr>"
  let ?resp = "Some \<lparr>resp_Clients = map live (ord live), resp_RemainingClients = 0, resp_Client = None\<rparr>"
  have s: "listener_step ord ?ev live = Inr (live, [Send ?rch ?resp])"
    by (simp add: listener_step_def)
  have r: "sent_on ?rch [Send ?rch ?resp] = Some ?resp"
    by simp
  from recv_fresh [OF w l s r]
  show ?thesis by simp
qed

lemma wf_listener:
  "wf_Clients cs \<Longrightarrow> \<exists>live a. listener ord (events cs) (clients cs) = Inr (live, a) \<and> wf_map (nchan cs) live"
  using listener_total [of "nchan cs" "events cs" ord "clients cs"] listener_wf_map
  by (fastforce simp: wf_Clients_def)

lemma len_delete_absent: "m i = None \<Longrightarrow> m(i := None) = m"
  by (rule ext) simp

lemma len_delete_present:
  "finite (dom m) \<Longrightarrow> m i = Some c \<Longrightarrow> len (m(i := None)) = len m - 1"
proof -
  assume f: "finite (dom m)" and p: "m i = Some c"
  then have "i \<in> dom m" by auto
  with f have "card (dom m - {i}) = card (dom m) - 1" and "0 < card (dom m)"
    by (auto simp: card_gt_0_iff)
  then show ?thesis by (simp add: len_def)
qed

lemma fold_index: "fold (\<lambda>i. f (xs ! i)) [0..<length xs] s = fold f xs s"
proof (induction xs arbitrary: s rule: rev_induct)
  case Nil
  then show ?case by simp
next
  case (snoc x xs)
  have "fold (\<lambda>i. f ((xs @ [x]) ! i)) [0..<length xs] s = fold (\<lambda>i. f (xs ! i)) [0..<length xs] s"
    by (rule fold_cong) (auto simp: nth_append)
  with snoc show ?case by simp
qed

lemma wf_map_delete: "wf_map n m \<Longrightarrow> wf_map n (m(i := None))"
  by (auto simp: wf_map_def split: if_splits)

lemma wf_Remove:
  assumes w: "wf_Clients cs" and r: "Remove ord i cs = Inr (n, cs')"
  shows "wf_Clients cs'"
proof -
  from wf_listener [OF w] obtain live a where
    l: "listener ord (events cs) (clients cs) = Inr (live, a)" and m: "wf_map (nchan cs) live"
    by blast
  from m have "wf_map (Suc (nchan cs)) live"
    by (rule wf_map_mono) simp
  then have "wf_map (Suc (nchan cs)) (live(i := None))"
    by (rule wf_map_delete)
  with Remove_result [OF w l, of i] r show ?thesis
    by (auto simp: wf_Clients_def)
qed

lemma map_of_keys:
  fixes m :: "'k \<rightharpoonup> 'v" and key :: "'v \<Rightarrow> 'k"
  assumes d: "distinct ks" and s: "set ks = dom m" and k: "\<forall>x c. m x = Some c \<longrightarrow> key c = x"
  shows "distinct (map m ks) \<and> set (map m ks) = Some ` ran m \<and> length ks = card (dom m)"
proof (intro conjI)
  have "inj_on m (dom m)"
  proof (rule inj_onI)
    fix x y assume "x \<in> dom m" "y \<in> dom m" "m x = m y"
    then obtain c where "m x = Some c" "m y = Some c" by auto
    with k have "key c = x" "key c = y" by auto
    then show "x = y" by simp
  qed
  with d s show "distinct (map m ks)" by (simp add: distinct_map)
  show "set (map m ks) = Some ` ran m"
  proof -
    have "m ` dom m = Some ` ran m"
    proof (intro set_eqI iffI)
      fix v assume "v \<in> m ` dom m"
      then obtain k c where "m k = Some c" "v = Some c" by auto
      then show "v \<in> Some ` ran m" by (auto simp: ran_def)
    next
      fix v assume "v \<in> Some ` ran m"
      then obtain k c where "m k = Some c" "v = Some c" by (auto simp: ran_def)
      then have "k \<in> dom m" "v = m k" by auto
      then show "v \<in> m ` dom m" by blast
    qed
    with s show ?thesis by simp
  qed
  from d have "card (set ks) = length ks" by (rule distinct_card)
  with s show "length ks = card (dom m)" by simp
qed

lemma listener_step_map:
  "listener_step ord ev m = Inr (m', a) \<Longrightarrow>
   m' = (case request_of ev of None \<Rightarrow> m | Some r \<Rightarrow> apply_request r m)"
  by (auto simp: listener_step_def request_of_def Let_def len_delete_absent
      split: eventType.splits option.splits)

lemma listener_map:
  "listener ord evs m = Inr (m', a) \<Longrightarrow> m' = fold apply_request (requests_of evs) m"
proof (induction evs arbitrary: m a)
  case Nil
  then show ?case by simp
next
  case (Cons e evs)
  from Cons.prems obtain m1 b1 b2 where
    s: "listener_step ord e m = Inr (m1, b1)" and
    l: "listener ord evs m1 = Inr (m', b2)"
    by (auto split: sum.splits)
  from s have "m1 = (case request_of e of None \<Rightarrow> m | Some r \<Rightarrow> apply_request r m)"
    by (rule listener_step_map)
  with Cons.IH [OF l] show ?case by (simp split: option.splits)
qed

lemma dom_apply_request: "dom (apply_request r m) = apply_id r (dom m)"
  by (cases r) auto

lemma dom_apply_requests: "dom (fold apply_request rs m) = fold apply_id rs (dom m)"
  by (induction rs arbitrary: m) (simp_all add: dom_apply_request)

lemma listener_snapshot:
  assumes l: "listener ord evs m = Inr (m', acts)"
    and i: "i < length evs"
    and t: "ev_Type (evs ! i) = eTypeClientList"
    and r: "ev_Response (evs ! i) = Some rch"
  shows "Send rch (Some \<lparr>resp_Clients =
             map (fold apply_request (requests_of (take i evs)) m)
                 (ord (fold apply_request (requests_of (take i evs)) m)),
           resp_RemainingClients = 0, resp_Client = None\<rparr>) \<in> set acts"
proof -
  let ?mi = "fold apply_request (requests_of (take i evs)) m"
  from i have e: "evs = take i evs @ evs ! i # drop (Suc i) evs"
    by (rule id_take_nth_drop)
  from l have "listener ord (take i evs @ evs ! i # drop (Suc i) evs) m = Inr (m', acts)"
    using e by simp
  then obtain m1 a1 m2 a2 where
    l1: "listener ord (take i evs) m = Inr (m1, a1)" and
    l2: "listener ord (evs ! i # drop (Suc i) evs) m1 = Inr (m2, a2)" and
    a: "acts = a1 @ a2"
    by (auto simp: listener_append split: sum.splits)
  from l1 have m1: "m1 = ?mi" by (rule listener_map)
  from t r have "listener_step ord (evs ! i) m1 =
      Inr (m1, [Send rch (Some \<lparr>resp_Clients = map m1 (ord m1), resp_RemainingClients = 0,
                                  resp_Client = None\<rparr>)])"
    by (simp add: listener_step_def)
  with l2 have "Send rch (Some \<lparr>resp_Clients = map m1 (ord m1), resp_RemainingClients = 0,
                                  resp_Client = None\<rparr>) \<in> set a2"
    by (auto split: sum.splits)
  with a m1 show ?thesis by simp
qed

lemma owner_result:
  assumes "list_all (wf_event n) (events cs)"
  shows "\<exists>m acts. listener ord (take k (events cs)) (clients cs) = Inr (m, acts) \<and>
           owner ord k cs =
             Inr (cs\<lparr>clients := m, events := drop k (events cs), trace := trace cs @ acts\<rparr>)"
proof -
  from assms have "list_all (wf_event n) (take k (events cs))"
    by (auto simp: list_all_iff dest: in_set_takeD)
  from listener_total [OF this] obtain m acts where
    "listener ord (take k (events cs)) (clients cs) = Inr (m, acts)"
    by blast
  then show ?thesis by (simp add: owner_def)
qed

lemma wf_owner:
  assumes w: "wf_Clients cs" and o: "owner ord k cs = Inr cs'"
  shows "wf_Clients cs' \<and> MsgBuffer cs' = MsgBuffer cs \<and> nchan cs' = nchan cs"
proof -
  from w have e: "list_all (wf_event (nchan cs)) (events cs)" and m: "wf_map (nchan cs) (clients cs)"
    by (simp_all add: wf_Clients_def)
  from owner_result [OF e, of ord k] o obtain m' acts where
    l: "listener ord (take k (events cs)) (clients cs) = Inr (m', acts)" and
    c: "cs' = cs\<lparr>clients := m', events := drop k (events cs), trace := trace cs @ acts\<rparr>"
    by auto
  from e have t: "list_all (wf_event (nchan cs)) (take k (events cs))"
    by (auto simp: list_all_iff dest: in_set_takeD)
  from e have d: "list_all (wf_event (nchan cs)) (drop k (events cs))"
    by (auto simp: list_all_iff dest: in_set_dropD)
  from listener_wf_map [OF l t m] have "wf_map (nchan cs) m'" .
  with d c show ?thesis by (simp add: wf_Clients_def)
qed

lemma wf_submit:
  assumes w: "wf_Clients cs"
  shows "wf_Clients
           (send \<lparr>ev_Type = eTypeNewClient, ev_ClientID = [],
                  ev_Client = Some \<lparr>ID = i, Msg = \<lparr>chan_id = nchan cs, chan_cap = b\<rparr>,
                                     ResponseWriter = w', Ctx = ctx\<rparr>,
                  ev_Response = None\<rparr>
              (snd (make_chan b cs)))"
proof -
  from w have e: "list_all (wf_event (nchan cs)) (events cs)" and m: "wf_map (nchan cs) (clients cs)"
    by (simp_all add: wf_Clients_def)
  from e have "list_all (wf_event (Suc (nchan cs))) (events cs)"
    by (auto simp: list_all_iff intro: wf_event_mono)
  moreover from m have "wf_map (Suc (nchan cs)) (clients cs)"
    by (rule wf_map_mono) simp
  ultimately show ?thesis
    by (simp add: wf_Clients_def send_def make_chan_def wf_event_def)
qed

lemma wf_New:
  assumes w: "wf_Clients cs" and r: "New ord k ctx w' i cs = Inr (x, cs')"
  shows "wf_Clients cs' \<and> MsgBuffer cs' = MsgBuffer cs"
proof -
  let ?cs2 = "send \<lparr>ev_Type = eTypeNewClient, ev_ClientID = [],
                  ev_Client = Some \<lparr>ID = i, Msg = \<lparr>chan_id = nchan cs, chan_cap = nat (MsgBuffer cs)\<rparr>,
                                     ResponseWriter = w', Ctx = ctx\<rparr>,
                  ev_Response = None\<rparr>
              (snd (make_chan (nat (MsgBuffer cs)) cs))"
  from w have w2: "wf_Clients ?cs2" by (rule wf_submit)
  from r have "owner ord k ?cs2 = Inr cs'"
    by (auto simp: New_def make_chan_def Let_def split: if_splits sum.splits)
  from wf_owner [OF w2 this] show ?thesis
    by (simp add: send_def make_chan_def)
qed

lemma wf_list:
  assumes w: "wf_Clients cs"
  shows "\<exists>live a. Clients ord cs = Inr (map live (ord live), cs\<lparr>clients := live, events := [],
             nchan := Suc (nchan cs), trace := trace cs @ a\<rparr>) \<and>
           Client ord i cs = Inr (None, cs\<lparr>clients := live, events := [],
             nchan := Suc (nchan cs), trace := trace cs @ a\<rparr>) \<and>
           wf_map (Suc (nchan cs)) live"
proof -
  from wf_listener [OF w] obtain live a where
    l: "listener ord (events cs) (clients cs) = Inr (live, a)" and m: "wf_map (nchan cs) live"
    by blast
  from m have "wf_map (Suc (nchan cs)) live"
    by (rule wf_map_mono) simp
  with list_result [OF w l] show ?thesis
    by (simp add: Clients_def Client_def make_chan_def) blast
qed

lemma wf_Clients_op:
  assumes w: "wf_Clients cs" and r: "Clients ord cs = Inr (x, cs')"
  shows "wf_Clients cs' \<and> MsgBuffer cs' = MsgBuffer cs"
proof -
  from wf_list [OF w, of ord undefined] obtain live a where
    "Clients ord cs = Inr (map live (ord live), cs\<lparr>clients := live, events := [],
       nchan := Suc (nchan cs), trace := trace cs @ a\<rparr>)" and
    "wf_map (Suc (nchan cs)) live"
    by blast
  with r show ?thesis by (auto simp: wf_Clients_def)
qed

lemma wf_Client_op:
  assumes w: "wf_Clients cs" and r: "Client ord i cs = Inr (x, cs')"
  shows "wf_Clients cs' \<and> MsgBuffer cs' = MsgBuffer cs"
proof -
  from wf_list [OF w, of ord i] obtain live a where
    "Client ord i cs = Inr (None, cs\<lparr>clients := live, events := [],
       nchan := Suc (nchan cs), trace := trace cs @ a\<rparr>)" and
    "wf_map (Suc (nchan cs)) live"
    by blast
  with r show ?thesis by (auto simp: wf_Clients_def)
qed

lemma MsgBuffer_Remove:
  assumes w: "wf_Clients cs" and r: "Remove ord i cs = Inr (n, cs')"
  shows "MsgBuffer cs' = MsgBuffer cs"
proof -
  from wf_listener [OF w] obtain live a where
    l: "listener ord (events cs) (clients cs) = Inr (live, a)"
    by blast
  from Remove_result [OF w l, of i] r show ?thesis by auto
qed

lemma wf_NewClientManager: "wf_Clients NewClientManager"
  by (simp add: wf_Clients_def NewClientManager_def wf_map_def)

lemma reachable_wf: "reachable cs \<Longrightarrow> wf_Clients cs \<and> MsgBuffer cs = 10"
proof (induction rule: reachable.induct)
  case reachable_init
  show ?case using wf_NewClientManager by (simp add: NewClientManager_def)
next
  case (reachable_owner cs ord k cs')
  then show ?case using wf_owner by metis
next
  case (reachable_New cs ord k ctx w i r cs')
  then show ?case using wf_New by metis
next
  case (reachable_Remove cs ord i n cs')
  then show ?case using wf_Remove MsgBuffer_Remove by metis
next
  case (reachable_Clients cs ord snap cs')
  then show ?case using wf_Clients_op by metis
next
  case (reachable_Client cs ord i c cs')
  then show ?case using wf_Client_op by metis
qed

lemma New_returns:
  assumes w: "wf_Clients cs" and b: "0 \<le> MsgBuffer cs"
  shows "\<exists>n cs'.
           New ord k ctx w' i cs =
             Inr ((\<lparr>ID = i, Msg = \<lparr>chan_id = nchan cs, chan_cap = nat (MsgBuffer cs)\<rparr>,
                    ResponseWriter = w', Ctx = ctx\<rparr>, n), cs')"
proof -
  let ?cs2 = "send \<lparr>ev_Type = eTypeNewClient, ev_ClientID = [],
                  ev_Client = Some \<lparr>ID = i, Msg = \<lparr>chan_id = nchan cs, chan_cap = nat (MsgBuffer cs)\<rparr>,
                                     ResponseWriter = w', Ctx = ctx\<rparr>,
                  ev_Response = None\<rparr>
              (snd (make_chan (nat (MsgBuffer cs)) cs))"
  from w have "wf_Clients ?cs2" by (rule wf_submit)
  then have "list_all (wf_event (nchan ?cs2)) (events ?cs2)"
    by (simp add: wf_Clients_def)
  from owner_result [OF this, of ord k] obtain cs3 where "owner ord k ?cs2 = Inr cs3"
    by blast
  with b show ?thesis
    by (simp add: New_def make_chan_def Let_def)
qed

lemma fold_log: "fold (\<lambda>c visited. visited @ [c]) xs ys = ys @ xs"
  by (induction xs arbitrary: ys) simp_all

subsection \<open>The example states\<close>

lemma wf_registry_a: "wf_Clients registry_a"
  by (simp add: wf_Clients_def registry_a_def wf_map_def client_a_def)

lemma wf_registry_pending_a: "wf_Clients registry_pending_a"
  by (simp add: wf_Clients_def registry_pending_a_def wf_map_def wf_event_def insert_a_def client_a_def)

lemma len_registry_a: "len [''a'' \<mapsto> client_a] = 1"
  by (simp add: len_def)

lemma New_a_applied:
  "New order_ab 1 (Context 0) (Writer 0) ''a'' NewClientManager = Inr ((client_a, 1), registry_a)"
  by (simp add: New_def Let_def NewClientManager_def make_chan_def send_def owner_def listener_step_def
      client_a_def registry_a_def len_def)

lemma New_a_pending:
  "New order_ab 0 (Context 0) (Writer 0) ''a'' NewClientManager = Inr ((client_a, 0), registry_pending_a)"
  by (simp add: New_def Let_def NewClientManager_def make_chan_def send_def owner_def
      client_a_def registry_pending_a_def insert_a_def len_def)

lemma reachable_registry_a: "reachable registry_a"
  using reachable_init New_a_applied by (rule reachable_New)

section \<open>The claims\<close>

text \<open>
  In the statements below \<open>live\<close> is the map of the owner at the instant it takes up the
  request of the method: the map of the state after the requests still pending have been
  processed. With nothing pending it is the map of the state.
\<close>

text \<open>
  C1. \<open>Client(id)\<close> is to return the live client with that id, and nothing when no client
  with that id is live. The code sends a request of type \<open>eTypeClientList\<close> with no client
  id, where the owner's case \<open>eTypeClient\<close> is the one that looks the id up
  (\<open>lookup_branch_finds_client\<close>); the response of a list request leaves its field
  \<open>Client\<close> nil, and that field is what the method returns. In the registry where \<open>a\<close> is
  live, \<open>Client\<close> on the id of \<open>a\<close> returns nil.
\<close>

theorem Client_returns_nil_for_live_client:
  "clients registry_a ''a'' = Some client_a \<and>
   Client order_ab ''a'' registry_a =
     Inr (None,
          registry_a\<lparr>nchan := 2,
            trace := [Send \<lparr>chan_id = 1, chan_cap = 0\<rparr>
                        (Some \<lparr>resp_Clients = [Some client_a], resp_RemainingClients = 0,
                               resp_Client = None\<rparr>)]\<rparr>)"
  by (simp add: Client_def registry_a_def make_chan_def send_def recv_def listener_step_def
      order_ab_def)

lemma lookup_branch_finds_client:
  "listener_step ord \<lparr>ev_Type = eTypeClient, ev_ClientID = i, ev_Client = None,
                      ev_Response = Some rch\<rparr> m =
     Inr (m, [Send rch (Some \<lparr>resp_Clients = [], resp_RemainingClients = 0,
                              resp_Client = m i\<rparr>)])"
  by (simp add: listener_step_def)

lemma Client_result:
  assumes "wf_Clients cs"
    and "listener ord (events cs) (clients cs) = Inr (live, acts)"
  shows "\<exists>cs'. Client ord i cs = Inr (None, cs') \<and> clients cs' = live"
  using list_result [OF assms] by (simp add: Client_def make_chan_def)

text \<open>
  C2. For every run of well-formed requests from the empty map, the owner's map after the
  run is the result of applying the add and remove requests of the run one at a time, in
  the order of their arrival; its keys are the ids added minus the ids removed, in that
  order; and the snapshot answered to a list request at position \<open>i\<close> enumerates the map
  after exactly the first \<open>i\<close> requests, each applied in full. The owner is the only
  writer of the map and takes one request at a time, which is the shape of \<open>listener\<close>.
\<close>

theorem listener_applies_requests_in_order:
  assumes "list_all (wf_event n) evs"
  shows "\<exists>acts.
           listener ord evs Map.empty = Inr (fold apply_request (requests_of evs) Map.empty, acts) \<and>
           dom (fold apply_request (requests_of evs) Map.empty) = fold apply_id (requests_of evs) {} \<and>
           (\<forall>i rch. i < length evs \<and> ev_Type (evs ! i) = eTypeClientList \<and>
                    ev_Response (evs ! i) = Some rch \<longrightarrow>
              Send rch (Some \<lparr>resp_Clients =
                   map (fold apply_request (requests_of (take i evs)) Map.empty)
                       (ord (fold apply_request (requests_of (take i evs)) Map.empty)),
                 resp_RemainingClients = 0, resp_Client = None\<rparr>) \<in> set acts)"
proof -
  from listener_total [OF assms] obtain m' acts where
    l: "listener ord evs Map.empty = Inr (m', acts)"
    by blast
  from l have m: "m' = fold apply_request (requests_of evs) Map.empty"
    by (rule listener_map)
  have d: "dom (fold apply_request (requests_of evs) Map.empty) = fold apply_id (requests_of evs) {}"
    using dom_apply_requests [of "requests_of evs" Map.empty] by simp
  from l m d show ?thesis
    by (auto intro: listener_snapshot [OF l])
qed

theorem listener_applies_requests_in_order_witness:
  "list_all (wf_event 3) events_example \<and>
   requests_of events_example = [AddReq client_a, RemoveReq ''a''] \<and>
   (\<exists>acts. listener order_ab events_example Map.empty = Inr (Map.empty, acts) \<and>
      Send \<lparr>chan_id = 1, chan_cap = 0\<rparr>
        (Some \<lparr>resp_Clients = [Some client_a], resp_RemainingClients = 0,
               resp_Client = None\<rparr>) \<in> set acts) \<and>
   fold apply_id (requests_of events_example) {} = {}"
proof -
  have w: "list_all (wf_event 3) events_example"
    by (simp add: events_example_def wf_event_def insert_a_def client_a_def)
  have r: "requests_of events_example = [AddReq client_a, RemoveReq ''a'']"
    by (simp add: events_example_def request_of_def insert_a_def)
  have t: "requests_of (take (Suc 0) events_example) = [AddReq client_a]"
    by (simp add: events_example_def request_of_def insert_a_def)
  have i: "ID client_a = ''a''"
    by (simp add: client_a_def)
  have e: "events_example ! 1 =
      \<lparr>ev_Type = eTypeClientList, ev_ClientID = [], ev_Client = None,
       ev_Response = Some \<lparr>chan_id = 1, chan_cap = 0\<rparr>\<rparr>" and n: "length events_example = 3"
    by (simp_all add: events_example_def)
  from listener_applies_requests_in_order [OF w, of order_ab] obtain acts where
    l: "listener order_ab events_example Map.empty =
          Inr (fold apply_request (requests_of events_example) Map.empty, acts)" and
    s: "\<forall>i rch. i < length events_example \<and> ev_Type (events_example ! i) = eTypeClientList \<and>
           ev_Response (events_example ! i) = Some rch \<longrightarrow>
           Send rch (Some \<lparr>resp_Clients =
                map (fold apply_request (requests_of (take i events_example)) Map.empty)
                    (order_ab (fold apply_request (requests_of (take i events_example)) Map.empty)),
              resp_RemainingClients = 0, resp_Client = None\<rparr>) \<in> set acts"
    by blast
  from s [rule_format, of 1 "\<lparr>chan_id = 1, chan_cap = 0\<rparr>"] e n
  have "Send \<lparr>chan_id = 1, chan_cap = 0\<rparr>
          (Some \<lparr>resp_Clients = [Some client_a], resp_RemainingClients = 0,
                 resp_Client = None\<rparr>) \<in> set acts"
    by (simp add: t i order_ab_def)
  moreover from l have "listener order_ab events_example Map.empty = Inr (Map.empty, acts)"
    by (simp add: r i)
  ultimately show ?thesis using w r by (auto simp: i)
qed

text \<open>
  C3. \<open>Clients()\<close> returns a copy of the live map: one element for every key the
  iteration visits, so that the slice holds exactly the clients of the map, each once,
  in the order of the iteration, which the runtime chooses; the map is left as it was.
\<close>

theorem Clients_is_snapshot:
  assumes "wf_Clients cs"
    and "listener ord (events cs) (clients cs) = Inr (live, acts)"
    and "range_ok ord live"
  shows "\<exists>snapshot cs'. Clients ord cs = Inr (snapshot, cs') \<and>
           snapshot = map live (ord live) \<and>
           set snapshot = Some ` ran live \<and>
           distinct snapshot \<and>
           length snapshot = card (dom live) \<and>
           clients cs' = live"
proof -
  from assms(1,2) have "wf_map (nchan cs) live"
    using listener_wf_map by (auto simp: wf_Clients_def)
  then have k: "\<forall>k c. live k = Some c \<longrightarrow> ID c = k" by (simp add: wf_map_def)
  from assms(3) have "distinct (ord live)" and "set (ord live) = dom live"
    by (simp_all add: range_ok_def)
  from map_of_keys [OF this, of ID] k list_result [OF assms(1,2)]
  show ?thesis by (simp add: Clients_def make_chan_def)
qed

theorem Clients_is_snapshot_witness:
  "wf_Clients registry_pending_a \<and>
   range_ok order_ab [''a'' \<mapsto> client_a] \<and>
   (\<exists>cs'. Clients order_ab registry_pending_a = Inr ([Some client_a], cs') \<and>
          clients cs' = [''a'' \<mapsto> client_a])"
proof -
  have l: "listener order_ab (events registry_pending_a) (clients registry_pending_a) =
             Inr ([''a'' \<mapsto> client_a], [])"
    by (simp add: registry_pending_a_def insert_a_def listener_step_def client_a_def)
  have r: "range_ok order_ab [''a'' \<mapsto> client_a]"
    by (auto simp: range_ok_def order_ab_def)
  from Clients_is_snapshot [OF wf_registry_pending_a l r]
  show ?thesis using wf_registry_pending_a r by (auto simp: order_ab_def)
qed

text \<open>
  C4. \<open>Remove(id)\<close> for an id with no entry in the live map changes nothing, is answered
  all the same (nil on the response channel, no fault) and returns the size of the map,
  unaffected. For an id with an entry it deletes that entry and no other, and returns the
  size of the map read after the removal.
\<close>

theorem Remove_absent_or_present:
  assumes "wf_Clients cs"
    and "listener ord (events cs) (clients cs) = Inr (live, acts)"
  shows "(live i = None \<longrightarrow>
            (\<exists>cs'. Remove ord i cs = Inr (len live, cs') \<and> clients cs' = live \<and>
                   trace cs' = trace cs @ acts @ [Send \<lparr>chan_id = nchan cs, chan_cap = 0\<rparr> None])) \<and>
         (\<forall>c. live i = Some c \<longrightarrow>
            (\<exists>cs'. Remove ord i cs = Inr (len (clients cs'), cs') \<and>
                   clients cs' i = None \<and>
                   (\<forall>k. k \<noteq> i \<longrightarrow> clients cs' k = live k) \<and>
                   len (clients cs') = len live - 1))"
proof -
  from assms have "wf_map (nchan cs) live"
    using listener_wf_map by (auto simp: wf_Clients_def)
  then have f: "finite (dom live)" by (simp add: wf_map_def)
  show ?thesis
    using Remove_result [OF assms, of i] f
    by (auto simp: len_delete_absent len_delete_present)
qed

theorem Remove_absent_or_present_witness:
  "wf_Clients registry_a \<and>
   (\<exists>cs'. Remove order_ab ''b'' registry_a = Inr (1, cs') \<and> clients cs' = [''a'' \<mapsto> client_a]) \<and>
   (\<exists>cs'. Remove order_ab ''a'' registry_a = Inr (0, cs') \<and> clients cs' ''a'' = None)"
proof -
  have l: "listener order_ab (events registry_a) (clients registry_a) =
             Inr ([''a'' \<mapsto> client_a], [])"
    by (simp add: registry_a_def)
  from Remove_absent_or_present [OF wf_registry_a l, of "''b''"]
  have b: "\<exists>cs'. Remove order_ab ''b'' registry_a = Inr (1, cs') \<and> clients cs' = [''a'' \<mapsto> client_a]"
    by (auto simp: len_registry_a)
  from Remove_absent_or_present [OF wf_registry_a l, of "''a''"]
  have a: "\<exists>cs'. Remove order_ab ''a'' registry_a = Inr (0, cs') \<and> clients cs' ''a'' = None"
    by (auto simp: len_registry_a)
  from a b wf_registry_a show ?thesis by simp
qed

text \<open>
  C5. \<open>Remove(id)\<close> for an id with an entry calls \<open>Done()\<close> on the context of the client
  it removes, once, and then answers the caller: the call is the action of the owner right
  before the send on the caller's response channel. What \<open>Done()\<close> does is the
  context's own business.
\<close>

theorem Remove_calls_Done_before_ack:
  assumes "wf_Clients cs"
    and "listener ord (events cs) (clients cs) = Inr (live, acts)"
    and "live i = Some c"
  shows "\<exists>n cs'. Remove ord i cs = Inr (n, cs') \<and>
           trace cs' = trace cs @ acts @ [Done (Ctx c), Send \<lparr>chan_id = nchan cs, chan_cap = 0\<rparr> None]"
  using Remove_result [OF assms(1,2), of i] assms(3) by simp

theorem Remove_calls_Done_before_ack_witness:
  "wf_Clients registry_a \<and>
   (\<exists>n cs'. Remove order_ab ''a'' registry_a = Inr (n, cs') \<and>
      trace cs' = [Done (Context 0), Send \<lparr>chan_id = 1, chan_cap = 0\<rparr> None])"
proof -
  have l: "listener order_ab (events registry_a) (clients registry_a) =
             Inr ([''a'' \<mapsto> client_a], [])"
    by (simp add: registry_a_def)
  from Remove_calls_Done_before_ack [OF wf_registry_a l, of "''a''" client_a]
  show ?thesis using wf_registry_a by (simp add: registry_a_def client_a_def)
qed

text \<open>
  C6. An insert whose client has the id of an entry of the map overwrites that entry with
  the new client: the iteration faults on nothing and sends nothing, the entries of all
  other ids stay, and, in a map that files every client under its own id, the client of
  the old entry is no longer a value of the map.
\<close>

theorem insert_overwrites_entry:
  assumes "ev_Type ev = eTypeNewClient"
    and "ev_Client ev = Some c"
    and "m (ID c) = Some old"
  shows "listener_step ord ev m = Inr (m(ID c \<mapsto> c), []) \<and>
         (m(ID c \<mapsto> c)) (ID c) = Some c \<and>
         (\<forall>k. k \<noteq> ID c \<longrightarrow> (m(ID c \<mapsto> c)) k = m k) \<and>
         (old \<noteq> c \<and> (\<forall>k c'. m k = Some c' \<longrightarrow> ID c' = k) \<longrightarrow> old \<notin> ran (m(ID c \<mapsto> c)))"
proof -
  have "listener_step ord ev m = Inr (m(ID c \<mapsto> c), [])"
    using assms(1,2) by (simp add: listener_step_def)
  moreover have "old \<notin> ran (m(ID c \<mapsto> c))"
    if "old \<noteq> c" and k: "\<forall>k c'. m k = Some c' \<longrightarrow> ID c' = k"
  proof
    assume "old \<in> ran (m(ID c \<mapsto> c))"
    then obtain k where u: "(m(ID c \<mapsto> c)) k = Some old" by (auto simp: ran_def)
    with that(1) have "k \<noteq> ID c" by (auto split: if_splits)
    with u have "m k = Some old" by simp
    with k have "ID old = k" by blast
    moreover from k assms(3) have "ID old = ID c" by blast
    ultimately show False using \<open>k \<noteq> ID c\<close> by simp
  qed
  ultimately show ?thesis by simp
qed

theorem insert_overwrites_entry_witness:
  "listener_step order_ab
     \<lparr>ev_Type = eTypeNewClient, ev_ClientID = [], ev_Client = Some client_a2, ev_Response = None\<rparr>
     [''a'' \<mapsto> client_a] = Inr ([''a'' \<mapsto> client_a2], []) \<and>
   client_a \<notin> ran [''a'' \<mapsto> client_a2]"
  using insert_overwrites_entry
    [of "\<lparr>ev_Type = eTypeNewClient, ev_ClientID = [], ev_Client = Some client_a2, ev_Response = None\<rparr>"
        client_a2 "[''a'' \<mapsto> client_a]" client_a order_ab]
  by (simp add: client_a_def client_a2_def)

text \<open>
  C7. \<open>New(ctx, w, id)\<close> returns a client with the id, the context and the writer given
  and a message channel made for it, of capacity \<open>MsgBuffer\<close>; it sends the insert and
  does not wait for the owner. The count it returns is \<open>len(cs.clients)\<close> at the moment
  \<open>New\<close> reads it, with the owner running meanwhile: the size of the map before the
  insert when the owner has processed nothing in between, and a size that counts the
  insert when the owner has already processed it. The claim that the count is always the
  size before the insert fails in the second case: on the new registry, with the owner
  processing the insert before the read, the count is 1 and the size before the insert
  is 0.
\<close>

theorem New_returns_client_and_racy_count:
  assumes w: "wf_Clients cs" and b: "0 \<le> MsgBuffer cs"
  shows "\<exists>n cs'.
           New ord k ctx w' i cs =
             Inr ((\<lparr>ID = i, Msg = \<lparr>chan_id = nchan cs, chan_cap = nat (MsgBuffer cs)\<rparr>,
                    ResponseWriter = w', Ctx = ctx\<rparr>, n), cs') \<and>
           (\<forall>c \<in> ran (clients cs). chan_id (Msg c) \<noteq> nchan cs) \<and>
           n = len (clients cs') \<and>
           (k = 0 \<longrightarrow> clients cs' = clients cs \<and> n = len (clients cs)) \<and>
           (k \<le> length (events cs) \<longrightarrow>
              events cs' = drop k (events cs) @
                [\<lparr>ev_Type = eTypeNewClient, ev_ClientID = [],
                  ev_Client = Some \<lparr>ID = i, Msg = \<lparr>chan_id = nchan cs, chan_cap = nat (MsgBuffer cs)\<rparr>,
                                     ResponseWriter = w', Ctx = ctx\<rparr>,
                  ev_Response = None\<rparr>]) \<and>
           (length (events cs) < k \<longrightarrow>
              events cs' = [] \<and>
              clients cs' i = Some \<lparr>ID = i, Msg = \<lparr>chan_id = nchan cs, chan_cap = nat (MsgBuffer cs)\<rparr>,
                                     ResponseWriter = w', Ctx = ctx\<rparr>)"
proof -
  let ?cli = "\<lparr>ID = i, Msg = \<lparr>chan_id = nchan cs, chan_cap = nat (MsgBuffer cs)\<rparr>,
               ResponseWriter = w', Ctx = ctx\<rparr>"
  let ?ins = "\<lparr>ev_Type = eTypeNewClient, ev_ClientID = [], ev_Client = Some ?cli,
               ev_Response = None\<rparr>"
  let ?cs2 = "send ?ins (snd (make_chan (nat (MsgBuffer cs)) cs))"
  from w have w2: "wf_Clients ?cs2" by (rule wf_submit)
  then have e2: "list_all (wf_event (nchan ?cs2)) (events ?cs2)"
    by (simp add: wf_Clients_def)
  from owner_result [OF e2, of ord k] obtain m acts where
    l: "listener ord (take k (events ?cs2)) (clients ?cs2) = Inr (m, acts)" and
    o: "owner ord k ?cs2 =
          Inr (?cs2\<lparr>clients := m, events := drop k (events ?cs2), trace := trace ?cs2 @ acts\<rparr>)"
    by blast
  let ?cs' = "?cs2\<lparr>clients := m, events := drop k (events ?cs2), trace := trace ?cs2 @ acts\<rparr>"
  from o b have r: "New ord k ctx w' i cs = Inr ((?cli, len (clients ?cs')), ?cs')"
    by (simp add: New_def make_chan_def Let_def)
  from w have fresh: "\<forall>c \<in> ran (clients cs). chan_id (Msg c) \<noteq> nchan cs"
    by (fastforce simp: wf_Clients_def wf_map_def ran_def)
  have ev2: "events ?cs2 = events cs @ [?ins]" and cl2: "clients ?cs2 = clients cs"
    by (simp_all add: send_def make_chan_def)
  have k0: "clients ?cs' = clients cs" if "k = 0"
    using l that by (simp add: cl2)
  have pending: "events ?cs' = drop k (events cs) @ [?ins]" if "k \<le> length (events cs)"
    using that by (simp add: ev2)
  have applied: "events ?cs' = [] \<and> clients ?cs' i = Some ?cli" if "length (events cs) < k"
  proof -
    from that have "take k (events ?cs2) = events cs @ [?ins]"
      by (simp add: ev2)
    with l obtain m1 a1 where
      "listener_step ord ?ins m1 = Inr (m, a1)"
      by (auto simp: listener_append split: sum.splits)
    then have "m i = Some ?cli"
      by (auto simp: listener_step_def)
    with that show ?thesis by (simp add: ev2)
  qed
  show ?thesis
    using r fresh k0 pending applied by (intro exI [of _ "len (clients ?cs')"] exI [of _ ?cs']) simp
qed

theorem New_returns_client_and_racy_count_witness:
  "wf_Clients NewClientManager \<and> 0 \<le> MsgBuffer NewClientManager \<and>
   (\<exists>cs'. New order_ab 0 (Context 0) (Writer 0) ''a'' NewClientManager = Inr ((client_a, 0), cs') \<and>
      clients cs' = Map.empty \<and> events cs' = [insert_a])"
proof -
  have b: "0 \<le> MsgBuffer NewClientManager"
    by (simp add: NewClientManager_def)
  from New_returns_client_and_racy_count
    [OF wf_NewClientManager b, of order_ab 0 "Context 0" "Writer 0" "''a''"]
  show ?thesis using wf_NewClientManager b
    by (auto simp: NewClientManager_def client_a_def insert_a_def len_def)
qed

text \<open>
  The registry just made, and the owner processing the insert before \<open>New\<close> reads the
  length: the count is 1, the size of the map before the insert 0.
\<close>

theorem New_count_counterexample:
  "New order_ab 1 (Context 0) (Writer 0) ''a'' NewClientManager = Inr ((client_a, 1), registry_a) \<and>
   len (clients NewClientManager) = 0"
  by (simp add: New_def Let_def NewClientManager_def make_chan_def send_def owner_def listener_step_def
      client_a_def registry_a_def len_def)

text \<open>
  C8. For every visitor \<open>f\<close>, \<open>Range(f)\<close> is \<open>Clients()\<close> followed by one call of \<open>f\<close> for
  every element of the snapshot, in the order of the snapshot, in the caller; the
  registry is left in the state \<open>Clients()\<close> leaves it in. With the visitor that notes
  what it is called on, the calls are the snapshot itself.
\<close>

theorem Range_visits_snapshot_of_Clients:
  "Range ord f cs s = Range_spec ord f cs s \<and>
   Range ord (\<lambda>c visited. visited @ [c]) cs [] = Clients ord cs"
proof -
  have r: "Range ord g cs t = Range_spec ord g cs t" for g :: "Client option \<Rightarrow> 't \<Rightarrow> 't" and t
    by (simp add: Range_def Range_spec_def Clients_def fold_index
        split: prod.splits sum.splits option.splits)
  have "Range_spec ord (\<lambda>c visited. visited @ [c]) cs [] = Clients ord cs"
    by (simp add: Range_spec_def fold_log split: sum.splits)
  with r [of f s] r [of "\<lambda>c visited. visited @ [c]" "[]"] show ?thesis by simp
qed

text \<open>
  C9. \<open>Remove(id)\<close> twice in a row: both calls return without fault, the second returns
  the count of the first, and it leaves the map as the first left it.
\<close>

theorem Remove_twice:
  assumes "wf_Clients cs"
  shows "\<exists>n cs1 cs2. Remove ord i cs = Inr (n, cs1) \<and> Remove ord i cs1 = Inr (n, cs2) \<and>
           clients cs2 = clients cs1"
proof -
  from wf_listener [OF assms] obtain live a where
    l: "listener ord (events cs) (clients cs) = Inr (live, a)"
    by blast
  from Remove_result [OF assms l, of i] obtain cs1 where
    r1: "Remove ord i cs = Inr (len (live(i := None)), cs1)" and
    c1: "clients cs1 = live(i := None)" and e1: "events cs1 = []"
    by simp
  from assms r1 have w1: "wf_Clients cs1" by (rule wf_Remove)
  have l1: "listener ord (events cs1) (clients cs1) = Inr (live(i := None), [])"
    by (simp add: e1 c1)
  from Remove_result [OF w1 l1, of i] obtain cs2 where
    "Remove ord i cs1 = Inr (len (live(i := None)), cs2)" and "clients cs2 = live(i := None)"
    by simp
  with r1 c1 show ?thesis by simp
qed

theorem Remove_twice_witness:
  "wf_Clients registry_a \<and>
   (\<exists>cs1 cs2. Remove order_ab ''a'' registry_a = Inr (0, cs1) \<and>
      Remove order_ab ''a'' cs1 = Inr (0, cs2) \<and> clients cs2 = clients cs1)"
proof -
  have l: "listener order_ab (events registry_a) (clients registry_a) =
             Inr ([''a'' \<mapsto> client_a], [])"
    by (simp add: registry_a_def)
  from Remove_result [OF wf_registry_a l, of "''a''"] obtain cs0 where
    r: "Remove order_ab ''a'' registry_a = Inr (0, cs0)"
    by (simp add: len_def)
  from Remove_twice [OF wf_registry_a, of order_ab "''a''"] r
  show ?thesis using wf_registry_a by auto
qed

text \<open>
  C10. \<open>NewClientManager()\<close> returns a registry with an empty map, nothing pending, and
  the capacity 10 both for the request channel and for \<open>MsgBuffer\<close>; in every state the
  methods can bring this registry to, \<open>New\<close> returns a client whose message channel has
  capacity 10.
\<close>

theorem NewClientManager_buffers:
  "clients NewClientManager = Map.empty \<and>
   events NewClientManager = [] \<and>
   MsgBuffer NewClientManager = 10 \<and>
   events_cap NewClientManager = 10 \<and>
   (\<forall>cs ord k ctx w i. reachable cs \<longrightarrow>
      (\<exists>cli n cs'. New ord k ctx w i cs = Inr ((cli, n), cs') \<and> chan_cap (Msg cli) = 10))"
proof -
  have "\<exists>cli n cs'. New ord k ctx w i cs = Inr ((cli, n), cs') \<and> chan_cap (Msg cli) = 10"
    if "reachable cs" for cs ord k ctx w i
  proof -
    from that have w: "wf_Clients cs" and b: "MsgBuffer cs = 10"
      by (simp_all add: reachable_wf)
    from b have "0 \<le> MsgBuffer cs" by simp
    from New_returns [OF w this, of ord k ctx w i] b show ?thesis by auto
  qed
  then show ?thesis by (simp add: NewClientManager_def)
qed

theorem NewClientManager_buffers_witness:
  "reachable registry_a \<and>
   (\<exists>cli n cs'. New order_ab 0 (Context 1) (Writer 1) ''b'' registry_a = Inr ((cli, n), cs') \<and>
      chan_cap (Msg cli) = 10)"
  using NewClientManager_buffers reachable_registry_a by blast

end
